theory Spec2Isabelle
  imports Main
begin

section \<open>Board, lines and the evaluator (App.js, lines 17-42)\<close>

text \<open>
  A square of the board holds \<open>null\<close>, \<open>'X'\<close> or \<open>'O'\<close>. The two marks are a datatype
  (\<open>MX\<close> for \<open>'X'\<close>, \<open>MO\<close> for \<open>'O'\<close>: the bare letter \<open>O\<close> is HOL's relation composition) and
  a square is an optional mark: \<open>None\<close> is JavaScript's \<open>null\<close>.
\<close>

datatype mark = MX | MO

type_synonym cell = "mark option"

type_synonym squares = "cell list"

text \<open>
  \<open>squares[i]\<close>: reading beyond the end of a JavaScript array gives \<open>undefined\<close>, which is
  falsy and different from every mark, exactly as \<open>null\<close> is in each test the code makes of
  it; both are \<open>None\<close> here.
\<close>

definition at :: "squares \<Rightarrow> nat \<Rightarrow> cell" where
  "at sq i = (if i < length sq then sq ! i else None)"

text \<open>
  \<open>copy[i] = v\<close>: a write inside the array replaces the element; a write beyond the end
  extends the array, the skipped positions being holes (read as \<open>undefined\<close>).
\<close>

definition set_at :: "squares \<Rightarrow> nat \<Rightarrow> cell \<Rightarrow> squares" where
  "set_at sq i v =
     (if i < length sq then sq[i := v] else sq @ replicate (i - length sq) None @ [v])"

definition LINES :: "(nat \<times> nat \<times> nat) list" where
  "LINES =
     [(0, 1, 2), (3, 4, 5), (6, 7, 8),
      (0, 3, 6), (1, 4, 7), (2, 5, 8),
      (0, 4, 8), (2, 4, 6)]"

record outcome =
  winner :: cell
  line :: "nat list"

text \<open>
  The loop of \<open>calculateWinner\<close> over the lines: the first line that passes the test
  returns, the lines after it are not looked at.
\<close>

fun calculateWinner_loop :: "squares \<Rightarrow> (nat \<times> nat \<times> nat) list \<Rightarrow> outcome" where
  "calculateWinner_loop sq [] = \<lparr>winner = None, line = []\<rparr>"
| "calculateWinner_loop sq ((a, b, c) # ls) =
     (if at sq a \<noteq> None \<and> at sq a = at sq b \<and> at sq a = at sq c
      then \<lparr>winner = at sq a, line = [a, b, c]\<rparr>
      else calculateWinner_loop sq ls)"

definition calculateWinner :: "squares \<Rightarrow> outcome" where
  "calculateWinner sq = calculateWinner_loop sq LINES"

text \<open>
  \<open>emptyIndices\<close>: \<open>map\<close> sends a falsy square to its index and any other to \<open>null\<close>,
  \<open>filter\<close> drops the \<open>null\<close>s; what is left are the indices of the empty squares, ascending.
\<close>

definition emptyIndices :: "squares \<Rightarrow> nat list" where
  "emptyIndices sq = filter (\<lambda>idx. sq ! idx = None) [0..<length sq]"

section \<open>The move advisor (App.js, lines 52-84)\<close>

text \<open>The inner function \<open>tryMove\<close>: place the mark on a copy and evaluate the copy.\<close>

definition tryMove :: "squares \<Rightarrow> nat \<Rightarrow> mark \<Rightarrow> bool" where
  "tryMove sq idx m = (winner (calculateWinner (set_at sq idx (Some m))) = Some m)"

text \<open>
  \<open>corners\<close> and \<open>sides\<close> of \<open>computeAIMove\<close>: the fixed index lists filtered by
  membership in \<open>available\<close>.
\<close>

definition corners :: "nat list \<Rightarrow> nat list" where
  "corners available = filter (\<lambda>c. c \<in> set available) [0, 2, 6, 8]"

definition sides :: "nat list \<Rightarrow> nat list" where
  "sides available = filter (\<lambda>s. s \<in> set available) [1, 3, 5, 7]"

text \<open>
  \<open>computeAIMove\<close>. The result is \<open>null\<close> (\<open>None\<close>) or an index. The two \<open>for\<close> loops
  return the first index of \<open>available\<close> that passes \<open>tryMove\<close>, which is \<open>find\<close>.
  The argument \<open>r\<close> stands for the random draw: \<open>Math.floor(Math.random() * n)\<close> is some
  index below \<open>n\<close>, here \<open>r mod n\<close>, so every index below \<open>n\<close> is the outcome for some \<open>r\<close>.
\<close>

definition computeAIMove :: "squares \<Rightarrow> mark \<Rightarrow> mark \<Rightarrow> nat \<Rightarrow> nat option" where
  "computeAIMove sq aiMark humanMark r =
     (let available = emptyIndices sq in
      if length available = 0 then None
      else case find (\<lambda>idx. tryMove sq idx aiMark) available of
        Some idx \<Rightarrow> Some idx
      | None \<Rightarrow>
         (case find (\<lambda>idx. tryMove sq idx humanMark) available of
            Some idx \<Rightarrow> Some idx
          | None \<Rightarrow>
             if 4 \<in> set available then Some 4
             else if length (corners available) \<noteq> 0
               then Some (corners available ! (r mod length (corners available)))
             else if length (sides available) \<noteq> 0
               then Some (sides available ! (r mod length (sides available)))
             else Some (available ! 0)))"

section \<open>Notions of the specification\<close>

text \<open>
  A line is complete on a board when its three squares are non-empty and identical. The
  lines are the three rows, the three columns and the two diagonals of the 3 by 3 grid in
  row-major order.
\<close>

definition line_complete :: "squares \<Rightarrow> nat \<times> nat \<times> nat \<Rightarrow> bool" where
  "line_complete sq l =
     (case l of (a, b, c) \<Rightarrow> at sq a \<noteq> None \<and> at sq b = at sq a \<and> at sq c = at sq a)"

definition rows :: "(nat \<times> nat \<times> nat) list" where
  "rows = map (\<lambda>r. (3 * r, 3 * r + 1, 3 * r + 2)) [0..<3]"

definition cols :: "(nat \<times> nat \<times> nat) list" where
  "cols = map (\<lambda>c. (c, c + 3, c + 6)) [0..<3]"

definition diags :: "(nat \<times> nat \<times> nat) list" where
  "diags = [(0, 4, 8), (2, 4, 6)]"

text \<open>
  An empty square that, filled with the mark, completes a line: the square is empty and lies
  on a line whose three squares all hold the mark once it is filled.
\<close>

definition wins_at :: "squares \<Rightarrow> nat \<Rightarrow> mark \<Rightarrow> bool" where
  "wins_at sq i m =
     (i < length sq \<and> sq ! i = None \<and>
      (\<exists>(a, b, c) \<in> set LINES. i \<in> {a, b, c} \<and>
         (\<forall>j \<in> {a, b, c}. at (sq[i := Some m]) j = Some m)))"

text \<open>The empty squares that complete a line for the mark, in index order.\<close>

definition winning_cells :: "squares \<Rightarrow> mark \<Rightarrow> nat list" where
  "winning_cells sq m = filter (\<lambda>i. wins_at sq i m) [0..<length sq]"

text \<open>
  \<open>computeAIMove\<close> once more, returning the \<open>return\<close> statement it leaves by instead of the
  index: same tests, same order.
\<close>

datatype tier = Win | Block | Center | Corner | Side | Fallback

definition computeAIMove_tier :: "squares \<Rightarrow> mark \<Rightarrow> mark \<Rightarrow> tier option" where
  "computeAIMove_tier sq aiMark humanMark =
     (let available = emptyIndices sq in
      if length available = 0 then None
      else case find (\<lambda>idx. tryMove sq idx aiMark) available of
        Some idx \<Rightarrow> Some Win
      | None \<Rightarrow>
         (case find (\<lambda>idx. tryMove sq idx humanMark) available of
            Some idx \<Rightarrow> Some Block
          | None \<Rightarrow>
             if 4 \<in> set available then Some Center
             else if length (corners available) \<noteq> 0 then Some Corner
             else if length (sides available) \<noteq> 0 then Some Side
             else Some Fallback))"

text \<open>The square \<open>i\<close> exists and is empty.\<close>

definition empty_cell :: "squares \<Rightarrow> nat \<Rightarrow> bool" where
  "empty_cell sq i = (i < length sq \<and> sq ! i = None)"

section \<open>The game controller (App.js, lines 90-190)\<close>

text \<open>
  The state of the \<open>App\<close> component, one field per \<open>useState\<close> hook (the constant \<open>theme\<close>
  apart). The score counters are JavaScript numbers that only ever grow by one from zero;
  they are natural numbers here.
\<close>

datatype game_mode = HUMAN_HUMAN | HUMAN_AI

record score_table =
  score_X :: nat
  score_O :: nat
  draws :: nat

record session =
  mode :: game_mode
  board :: squares
  xIsNext :: bool
  scores :: score_table
  statusMessage :: string
  gameActive :: bool

text \<open>The values every render derives from the state (lines 107-111).\<close>

definition boardWinner :: "session \<Rightarrow> cell" where
  "boardWinner s = winner (calculateWinner (board s))"

definition movesLeft :: "session \<Rightarrow> nat" where
  "movesLeft s = length (emptyIndices (board s))"

definition currentPlayer :: "session \<Rightarrow> mark" where
  "currentPlayer s = (if xIsNext s then MX else MO)"

definition aiMark :: mark where
  "aiMark = MO"

definition mark_name :: "mark \<Rightarrow> string" where
  "mark_name m = (case m of MX \<Rightarrow> ''X'' | MO \<Rightarrow> ''O'')"

text \<open>\<open>s[winner]\<close> and the update \<open>{ ...s, [winner]: s[winner] + 1 }\<close> of the score object.\<close>

definition score_of :: "mark \<Rightarrow> score_table \<Rightarrow> nat" where
  "score_of m sc = (case m of MX \<Rightarrow> score_X sc | MO \<Rightarrow> score_O sc)"

definition add_win :: "mark \<Rightarrow> score_table \<Rightarrow> score_table" where
  "add_win m sc =
     (case m of
        MX \<Rightarrow> sc\<lparr>score_X := score_of MX sc + 1\<rparr>
      | MO \<Rightarrow> sc\<lparr>score_O := score_of MO sc + 1\<rparr>)"

text \<open>The body of the status effect (lines 113-128), on the values of the render \<open>s\<close>.\<close>

definition statusEffect :: "session \<Rightarrow> session" where
  "statusEffect s =
     (case boardWinner s of
        Some w \<Rightarrow>
          s\<lparr>statusMessage := ''Winner: '' @ mark_name w, gameActive := False,
            scores := add_win w (scores s)\<rparr>
      | None \<Rightarrow>
          if movesLeft s = 0
          then s\<lparr>statusMessage := ''Draw!'', gameActive := False,
                 scores := (scores s)\<lparr>draws := draws (scores s) + 1\<rparr>\<rparr>
          else s\<lparr>statusMessage := ''Turn: '' @ mark_name (currentPlayer s)\<rparr>)"

definition canPlay :: "session \<Rightarrow> bool" where
  "canPlay s = (gameActive s \<and> boardWinner s = None)"

text \<open>\<open>handleClick\<close> (lines 149-159): the three early returns leave the state as it is.\<close>

definition handleClick :: "nat \<Rightarrow> session \<Rightarrow> session" where
  "handleClick i s =
     (if \<not> canPlay s then s
      else if at (board s) i \<noteq> None then s
      else if mode s = HUMAN_AI \<and> \<not> xIsNext s then s
      else s\<lparr>board := set_at (board s) i (Some (currentPlayer s)), xIsNext := \<not> xIsNext s\<rparr>)"

definition restartGame :: "bool \<Rightarrow> session \<Rightarrow> session" where
  "restartGame hard s =
     s\<lparr>board := replicate 9 None, xIsNext := True, gameActive := True,
       statusMessage := ''New round. Turn: X'',
       scores := (if hard then \<lparr>score_X = 0, score_O = 0, draws = 0\<rparr> else scores s)\<rparr>"

definition handleModeChange :: "game_mode \<Rightarrow> session \<Rightarrow> session" where
  "handleModeChange newMode s = restartGame False (s\<lparr>mode := newMode\<rparr>)"

definition startNewGame :: "session \<Rightarrow> session" where
  "startNewGame s = restartGame True s"

text \<open>
  The callback of the advisor's timer (lines 134-142). It is a closure: \<open>b\<close> is the board of
  the render that started the timer. \<open>None\<close> is a callback that sets no state.
\<close>

definition aiTimeout :: "squares \<Rightarrow> nat \<Rightarrow> session \<Rightarrow> session option" where
  "aiTimeout b r s =
     (case computeAIMove b aiMark MX r of
        None \<Rightarrow> None
      | Some idx \<Rightarrow>
          if idx < length b \<and> b ! idx = None
          then Some (s\<lparr>board := set_at b idx (Some aiMark), xIsNext := True\<rparr>)
          else None)"

text \<open>
  The condition under which the advisor's effect starts its timer (lines 132-133), and the
  dependency lists of the two effects. The board is a dependency of the advisor's effect by
  identity: every \<open>setBoard\<close> of the source passes a new array, so the handlers tell the
  render whether they replaced the board.
\<close>

definition aiArmed :: "session \<Rightarrow> bool" where
  "aiArmed s = (\<not> (\<not> gameActive s \<or> boardWinner s \<noteq> None) \<and> mode s = HUMAN_AI \<and> \<not> xIsNext s)"

definition statusDeps :: "session \<Rightarrow> cell \<times> nat \<times> mark" where
  "statusDeps s = (boardWinner s, movesLeft s, currentPlayer s)"

definition aiDeps :: "session \<Rightarrow> game_mode \<times> bool \<times> cell \<times> bool" where
  "aiDeps s = (mode s, xIsNext s, boardWinner s, gameActive s)"

text \<open>
  The component together with its pending timer: \<open>timer\<close> holds the board captured by the
  callback of a timer that was started and neither fired nor cleared.
\<close>

record app =
  sess :: session
  timer :: "squares option"

text \<open>
  An effect runs after a render when one of its dependencies changed. When the advisor's
  effect runs again, the cleanup of its last run clears the timer first.
\<close>

definition runStatusEffect :: "session \<Rightarrow> session \<Rightarrow> session" where
  "runStatusEffect prev s = (if statusDeps s = statusDeps prev then s else statusEffect s)"

definition runAiEffect :: "bool \<Rightarrow> session \<Rightarrow> session \<Rightarrow> squares option \<Rightarrow> squares option" where
  "runAiEffect newBoard prev s t =
     (if \<not> newBoard \<and> aiDeps s = aiDeps prev then t
      else if aiArmed s then Some (board s) else None)"

text \<open>
  The renders that follow a handler which took the state from \<open>prev\<close> to \<open>s\<close>: both effects
  see the state \<open>s\<close>; the state updates of the status effect give a second render, in which
  only the advisor's effect can have a changed dependency (\<open>gameActive\<close>).
\<close>

definition render :: "bool \<Rightarrow> session \<Rightarrow> session \<Rightarrow> squares option \<Rightarrow> app" where
  "render newBoard prev s t =
     (let s1 = runStatusEffect prev s;
          t1 = runAiEffect newBoard prev s t;
          t2 = runAiEffect False s s1 t1
      in \<lparr>sess = s1, timer = t2\<rparr>)"

text \<open>
  The events of the component: a click on the button of square \<open>i\<close>, the timer firing (with
  the random draw of the advisor), the two restart buttons (\<open>Restart True\<close> is New Game) and
  the two mode buttons. The grid has one button per square of the board (lines 234-244). A
  handler that returns early sets no state, and no render follows. The state updates of one
  handler or callback are applied together, in one render, and an event is handled with the
  renders and effects that follow it before the next event.
\<close>

datatype event = Click nat | Timeout nat | Restart bool | ModeChange game_mode

definition dispatch :: "event \<Rightarrow> app \<Rightarrow> app" where
  "dispatch e a =
     (case e of
        Click i \<Rightarrow>
          if i < length (board (sess a)) \<and> handleClick i (sess a) \<noteq> sess a
          then render True (sess a) (handleClick i (sess a)) (timer a)
          else a
      | Timeout r \<Rightarrow>
          (case timer a of
             None \<Rightarrow> a
           | Some b \<Rightarrow>
               (case aiTimeout b r (sess a) of
                  None \<Rightarrow> a\<lparr>timer := None\<rparr>
                | Some s \<Rightarrow> render True (sess a) s None))
      | Restart hard \<Rightarrow> render True (sess a) (restartGame hard (sess a)) (timer a)
      | ModeChange newMode \<Rightarrow>
          render True (sess a) (handleModeChange newMode (sess a)) (timer a))"

text \<open>The initial state (lines 95-100) and the first render, after which every effect runs.\<close>

definition initial :: session where
  "initial =
     \<lparr>mode = HUMAN_HUMAN, board = replicate 9 None, xIsNext = True,
      scores = \<lparr>score_X = 0, score_O = 0, draws = 0\<rparr>,
      statusMessage = ''Choose a mode and start playing!'', gameActive = True\<rparr>"

definition mount :: app where
  "mount =
     (let s1 = statusEffect initial;
          t1 = (if aiArmed initial then Some (board initial) else None);
          t2 = runAiEffect False initial s1 t1
      in \<lparr>sess = s1, timer = t2\<rparr>)"

text \<open>A sequence of events, handled one after the other.\<close>

fun run :: "event list \<Rightarrow> app \<Rightarrow> app" where
  "run [] a = a"
| "run (e # es) a = run es (dispatch e a)"

text \<open>The other mark.\<close>

definition other :: "mark \<Rightarrow> mark" where
  "other m = (case m of MX \<Rightarrow> MO | MO \<Rightarrow> MX)"

text \<open>An example state: \<open>X\<close> to move with two marks in the top row, no timer pending.\<close>

definition two_in_a_row :: app where
  "two_in_a_row =
     \<lparr>sess = \<lparr>mode = HUMAN_HUMAN,
              board = [Some MX, Some MX, None, Some MO, Some MO, None, None, None, None],
              xIsNext = True, scores = \<lparr>score_X = 1, score_O = 2, draws = 3\<rparr>,
              statusMessage = ''Turn: X'', gameActive = True\<rparr>,
      timer = None\<rparr>"

text \<open>
  The invariants of the component: the round-active flag is on exactly when the board has no
  winner and has an empty square; a pending timer was started by the render of the present
  board, under the condition of the advisor's effect; the board has nine squares.
\<close>

definition round_flag_ok :: "session \<Rightarrow> bool" where
  "round_flag_ok s = (gameActive s \<longleftrightarrow> boardWinner s = None \<and> None \<in> set (board s))"

definition timer_current :: "app \<Rightarrow> bool" where
  "timer_current a =
     (case timer a of None \<Rightarrow> True | Some b \<Rightarrow> b = board (sess a) \<and> aiArmed (sess a))"

definition app_inv :: "app \<Rightarrow> bool" where
  "app_inv a = (round_flag_ok (sess a) \<and> timer_current a \<and> length (board (sess a)) = 9)"

text \<open>The events that reset the round: the two restart buttons and the mode buttons.\<close>

definition is_reset :: "event \<Rightarrow> bool" where
  "is_reset e = (case e of Restart hard \<Rightarrow> True | ModeChange newMode \<Rightarrow> True | _ \<Rightarrow> False)"

text \<open>
  The state after choosing the mode against the advisor and clicking square 0: the advisor's
  timer is running.
\<close>

definition pending_move :: app where
  "pending_move = run [ModeChange HUMAN_AI, Click 0] mount"

section \<open>Properties of the evaluator and the advisor\<close>

lemma LINES_rows_cols_diags: "LINES = rows @ cols @ diags"
  by (simp add: LINES_def rows_def cols_def diags_def upt_conv_Cons)

lemma loop_find:
  "calculateWinner_loop sq ls =
     (case find (line_complete sq) ls of
        None \<Rightarrow> \<lparr>winner = None, line = []\<rparr>
      | Some (a, b, c) \<Rightarrow> \<lparr>winner = at sq a, line = [a, b, c]\<rparr>)"
proof (induction ls)
  case Nil
  show ?case by simp
next
  case (Cons l ls)
  obtain a b c where l: "l = (a, b, c)" by (cases l) auto
  show ?case
    by (auto simp: l Cons.IH line_complete_def)
qed

lemma winner_iff_complete:
  "winner (calculateWinner_loop sq ls) \<noteq> None \<longleftrightarrow> (\<exists>l \<in> set ls. line_complete sq l)"
proof (cases "find (line_complete sq) ls")
  case None
  moreover from None have "\<forall>l \<in> set ls. \<not> line_complete sq l"
    by (auto simp: find_None_iff)
  ultimately show ?thesis by (simp add: loop_find)
next
  case (Some l)
  obtain a b c where l: "l = (a, b, c)" by (cases l) auto
  from Some have "l \<in> set ls" "line_complete sq l"
    by (auto simp: find_Some_iff)
  then show ?thesis using Some l
    by (auto simp: loop_find line_complete_def)
qed

lemma loop_first:
  assumes "k < length ls" "ls ! k = (a, b, c)" "line_complete sq (a, b, c)"
    "\<forall>j<k. \<not> line_complete sq (ls ! j)"
  shows "calculateWinner_loop sq ls = \<lparr>winner = at sq a, line = [a, b, c]\<rparr>"
proof -
  have "find (line_complete sq) ls = Some (a, b, c)"
    using assms by (subst find_Some_iff) (rule exI[of _ k], simp)
  then show ?thesis by (simp add: loop_find)
qed

lemma loop_none:
  assumes "\<forall>l \<in> set ls. \<not> line_complete sq l"
  shows "calculateWinner_loop sq ls = \<lparr>winner = None, line = []\<rparr>"
proof -
  have "find (line_complete sq) ls = None"
    using assms by (simp add: find_None_iff)
  then show ?thesis by (simp add: loop_find)
qed

lemma loop_line:
  "line (calculateWinner_loop sq ls) = [] \<or>
   (\<exists>(a, b, c) \<in> set ls. line (calculateWinner_loop sq ls) = [a, b, c])"
proof (cases "find (line_complete sq) ls")
  case None
  then show ?thesis by (simp add: loop_find)
next
  case (Some l)
  then have "l \<in> set ls" by (auto simp: find_Some_iff)
  then show ?thesis using Some by (auto simp: loop_find split: prod.splits)
qed

text \<open>
  Claim C4. The table \<open>LINES\<close> holds the 8 index triples, the 3 rows, then the 3 columns, then the
  2 diagonals. For every board, \<open>calculateWinner\<close> returns a winning mark exactly when one of
  these lines holds three non-empty identical squares; it then returns the first such line in
  the order of the table together with the mark on it, and returns no mark and no line
  otherwise. The line it returns is empty or a single line of the table.
\<close>

theorem calculateWinner_first_complete_line:
  "LINES = rows @ cols @ diags \<and> length LINES = 8
   \<and> (winner (calculateWinner sq) \<noteq> None \<longleftrightarrow> (\<exists>l \<in> set LINES. line_complete sq l))
   \<and> (\<forall>k a b c. k < length LINES \<and> LINES ! k = (a, b, c) \<and> line_complete sq (a, b, c)
          \<and> (\<forall>j<k. \<not> line_complete sq (LINES ! j))
        \<longrightarrow> calculateWinner sq = \<lparr>winner = at sq a, line = [a, b, c]\<rparr> \<and> at sq a \<noteq> None)
   \<and> ((\<forall>l \<in> set LINES. \<not> line_complete sq l)
        \<longrightarrow> calculateWinner sq = \<lparr>winner = None, line = []\<rparr>)
   \<and> (line (calculateWinner sq) = []
        \<or> (\<exists>(a, b, c) \<in> set LINES. line (calculateWinner sq) = [a, b, c]))"
proof (intro conjI allI impI)
  show "LINES = rows @ cols @ diags" by (rule LINES_rows_cols_diags)
  show "length LINES = 8" by (simp add: LINES_def)
  show "winner (calculateWinner sq) \<noteq> None \<longleftrightarrow> (\<exists>l \<in> set LINES. line_complete sq l)"
    unfolding calculateWinner_def by (rule winner_iff_complete)
next
  fix k a b c
  assume h: "k < length LINES \<and> LINES ! k = (a, b, c) \<and> line_complete sq (a, b, c)
          \<and> (\<forall>j<k. \<not> line_complete sq (LINES ! j))"
  then show "calculateWinner sq = \<lparr>winner = at sq a, line = [a, b, c]\<rparr>"
    unfolding calculateWinner_def by (intro loop_first[of k]) auto
  from h show "at sq a \<noteq> None" by (simp add: line_complete_def)
next
  assume "\<forall>l \<in> set LINES. \<not> line_complete sq l"
  then show "calculateWinner sq = \<lparr>winner = None, line = []\<rparr>"
    unfolding calculateWinner_def by (rule loop_none)
next
  show "line (calculateWinner sq) = []
        \<or> (\<exists>(a, b, c) \<in> set LINES. line (calculateWinner sq) = [a, b, c])"
    unfolding calculateWinner_def by (rule loop_line)
qed

lemma emptyIndices_set: "i \<in> set (emptyIndices sq) \<longleftrightarrow> i < length sq \<and> sq ! i = None"
  by (auto simp: emptyIndices_def)

lemma emptyIndices_Nil: "emptyIndices sq = [] \<longleftrightarrow> None \<notin> set sq"
  by (auto simp: emptyIndices_def filter_empty_conv in_set_conv_nth)

lemma corners_subset: "set (corners av) \<subseteq> set av"
  by (auto simp: corners_def)

lemma sides_subset: "set (sides av) \<subseteq> set av"
  by (auto simp: sides_def)

lemma pick_in_set: "xs \<noteq> [] \<Longrightarrow> xs ! (r mod length xs) \<in> set xs"
  by simp

lemma computeAIMove_empty:
  "emptyIndices sq = [] \<Longrightarrow> computeAIMove sq ai hu r = None"
  by (simp add: computeAIMove_def)

lemma computeAIMove_win:
  "emptyIndices sq \<noteq> [] \<Longrightarrow> find (\<lambda>idx. tryMove sq idx ai) (emptyIndices sq) = Some j
   \<Longrightarrow> computeAIMove sq ai hu r = Some j"
  by (simp add: computeAIMove_def Let_def)

lemma computeAIMove_block:
  "emptyIndices sq \<noteq> [] \<Longrightarrow> find (\<lambda>idx. tryMove sq idx ai) (emptyIndices sq) = None
   \<Longrightarrow> find (\<lambda>idx. tryMove sq idx hu) (emptyIndices sq) = Some j
   \<Longrightarrow> computeAIMove sq ai hu r = Some j"
  by (simp add: computeAIMove_def Let_def)

lemma computeAIMove_rest:
  "emptyIndices sq \<noteq> [] \<Longrightarrow> find (\<lambda>idx. tryMove sq idx ai) (emptyIndices sq) = None
   \<Longrightarrow> find (\<lambda>idx. tryMove sq idx hu) (emptyIndices sq) = None
   \<Longrightarrow> computeAIMove sq ai hu r =
      (if 4 \<in> set (emptyIndices sq) then Some 4
       else if corners (emptyIndices sq) \<noteq> []
         then Some (corners (emptyIndices sq) ! (r mod length (corners (emptyIndices sq))))
       else if sides (emptyIndices sq) \<noteq> []
         then Some (sides (emptyIndices sq) ! (r mod length (sides (emptyIndices sq))))
       else Some (emptyIndices sq ! 0))"
  by (simp add: computeAIMove_def Let_def)

lemma computeAIMove_available:
  assumes "computeAIMove sq ai hu r = Some i"
  shows "i \<in> set (emptyIndices sq)"
proof -
  let ?av = "emptyIndices sq"
  have ne: "?av \<noteq> []" using assms computeAIMove_empty[of sq ai hu r] by auto
  show ?thesis
  proof (cases "find (\<lambda>idx. tryMove sq idx ai) ?av")
    case (Some j)
    then have "i = j" using assms ne computeAIMove_win[of sq ai j hu r] by simp
    moreover from Some have "j \<in> set ?av" by (auto simp: find_Some_iff)
    ultimately show ?thesis by simp
  next
    case n1: None
    show ?thesis
    proof (cases "find (\<lambda>idx. tryMove sq idx hu) ?av")
      case (Some j)
      then have "i = j" using assms ne n1 computeAIMove_block[of sq ai hu j r] by simp
      moreover from Some have "j \<in> set ?av" by (auto simp: find_Some_iff)
      ultimately show ?thesis by simp
    next
      case n2: None
      have c: "corners ?av \<noteq> [] \<Longrightarrow> corners ?av ! (r mod length (corners ?av)) \<in> set ?av"
        using corners_subset[of ?av] pick_in_set[of "corners ?av" r] by blast
      have s: "sides ?av \<noteq> [] \<Longrightarrow> sides ?av ! (r mod length (sides ?av)) \<in> set ?av"
        using sides_subset[of ?av] pick_in_set[of "sides ?av" r] by blast
      have h: "?av ! 0 \<in> set ?av" using ne by simp
      have "Some i = (if 4 \<in> set ?av then Some 4
       else if corners ?av \<noteq> []
         then Some (corners ?av ! (r mod length (corners ?av)))
       else if sides ?av \<noteq> []
         then Some (sides ?av ! (r mod length (sides ?av)))
       else Some (?av ! 0))"
        using computeAIMove_rest[OF ne n1 n2, of r] assms by simp
      with c s h show ?thesis
        by (simp split: if_splits)
    qed
  qed
qed

lemma computeAIMove_None: "computeAIMove sq ai hu r = None \<longleftrightarrow> emptyIndices sq = []"
proof
  assume n: "computeAIMove sq ai hu r = None"
  show "emptyIndices sq = []"
  proof (rule ccontr)
    assume ne: "emptyIndices sq \<noteq> []"
    show False
    proof (cases "find (\<lambda>idx. tryMove sq idx ai) (emptyIndices sq)")
      case (Some j)
      then show False using n ne computeAIMove_win[of sq ai j hu r] by simp
    next
      case n1: None
      show False
      proof (cases "find (\<lambda>idx. tryMove sq idx hu) (emptyIndices sq)")
        case (Some j)
        then show False using n ne n1 computeAIMove_block[of sq ai hu j r] by simp
      next
        case n2: None
        show False using computeAIMove_rest[OF ne n1 n2, of r] n by (simp split: if_splits)
      qed
    qed
  qed
next
  assume "emptyIndices sq = []"
  then show "computeAIMove sq ai hu r = None" by (rule computeAIMove_empty)
qed

text \<open>
  Claim C1. For every board (of 9 squares or of any other length) and every random draw,
  \<open>computeAIMove\<close> returns \<open>null\<close> exactly when no square of the board is empty, and an index
  it returns is inside the board and names a square that is empty on the input board.
\<close>

theorem computeAIMove_none_iff_full:
  "(computeAIMove sq ai hu r = None \<longleftrightarrow> None \<notin> set sq)
   \<and> (\<forall>i. computeAIMove sq ai hu r = Some i \<longrightarrow> i < length sq \<and> sq ! i = None)"
proof (intro conjI allI impI)
  show "computeAIMove sq ai hu r = None \<longleftrightarrow> None \<notin> set sq"
    by (simp only: computeAIMove_None emptyIndices_Nil)
next
  fix i
  assume "computeAIMove sq ai hu r = Some i"
  then have "i \<in> set (emptyIndices sq)" by (rule computeAIMove_available)
  then show "i < length sq" and "sq ! i = None" by (simp_all add: emptyIndices_set)
qed

lemma at_update: "i < length sq \<Longrightarrow> at (sq[i := v]) j = (if j = i then v else at sq j)"
  by (simp add: at_def)

lemma set_at_inside: "i < length sq \<Longrightarrow> set_at sq i v = sq[i := v]"
  by (simp add: set_at_def)

lemma winner_uniform:
  assumes "\<forall>l \<in> set ls. line_complete sq l \<longrightarrow> at sq (fst l) = Some m"
  shows "winner (calculateWinner_loop sq ls) = Some m \<longleftrightarrow> (\<exists>l \<in> set ls. line_complete sq l)"
proof (cases "find (line_complete sq) ls")
  case None
  then have "\<forall>l \<in> set ls. \<not> line_complete sq l" by (auto simp: find_None_iff)
  with None show ?thesis by (simp add: loop_find)
next
  case (Some l)
  obtain a b c where l: "l = (a, b, c)" by (cases l) auto
  from Some have in_ls: "l \<in> set ls" and comp: "line_complete sq l"
    by (auto simp: find_Some_iff)
  with assms have "at sq a = Some m" using l by auto
  with Some l in_ls comp show ?thesis by (auto simp: loop_find)
qed

lemma complete_after_fill:
  assumes "i < length sq" "\<not> line_complete sq (a, b, c)"
    "line_complete (sq[i := Some m]) (a, b, c)"
  shows "i \<in> {a, b, c} \<and> (\<forall>j \<in> {a, b, c}. at (sq[i := Some m]) j = Some m)"
proof -
  have inl: "i \<in> {a, b, c}"
  proof (rule ccontr)
    assume "i \<notin> {a, b, c}"
    then have "line_complete sq (a, b, c)"
      using assms(1,3) by (simp add: line_complete_def at_update)
    with assms(2) show False by simp
  qed
  have "at (sq[i := Some m]) i = Some m" using assms(1) by (simp add: at_update)
  with inl assms(3) show ?thesis
    by (auto simp: line_complete_def)
qed

lemma tryMove_iff_wins_at:
  assumes nw: "winner (calculateWinner sq) = None" and i: "i < length sq" and e: "sq ! i = None"
  shows "tryMove sq i m \<longleftrightarrow> wins_at sq i m"
proof -
  let ?sq = "sq[i := Some m]"
  have none: "\<And>l. l \<in> set LINES \<Longrightarrow> \<not> line_complete sq l"
    using nw winner_iff_complete[of sq LINES] by (simp add: calculateWinner_def)
  have through: "i \<in> {a, b, c} \<and> (\<forall>j \<in> {a, b, c}. at ?sq j = Some m)"
    if "(a, b, c) \<in> set LINES" "line_complete ?sq (a, b, c)" for a b c
    using complete_after_fill[OF i none[OF that(1)] that(2)] .
  have uni: "\<forall>l \<in> set LINES. line_complete ?sq l \<longrightarrow> at ?sq (fst l) = Some m"
  proof (intro ballI impI)
    fix l assume l: "l \<in> set LINES" "line_complete ?sq l"
    obtain a b c where abc: "l = (a, b, c)" by (cases l) auto
    from through[of a b c] l abc show "at ?sq (fst l) = Some m" by simp
  qed
  have tm: "tryMove sq i m \<longleftrightarrow> (\<exists>l \<in> set LINES. line_complete ?sq l)"
    using winner_uniform[OF uni] i by (simp add: tryMove_def set_at_inside calculateWinner_def)
  show ?thesis
  proof
    assume "tryMove sq i m"
    with tm obtain l where l: "l \<in> set LINES" "line_complete ?sq l" by blast
    obtain a b c where abc: "l = (a, b, c)" by (cases l) auto
    from through[of a b c] l abc
    have "i \<in> {a, b, c} \<and> (\<forall>j \<in> {a, b, c}. at ?sq j = Some m)" by simp
    with l(1) abc have "\<exists>(a, b, c) \<in> set LINES. i \<in> {a, b, c} \<and>
         (\<forall>j \<in> {a, b, c}. at ?sq j = Some m)"
      by (intro bexI[of _ "(a, b, c)"]) simp_all
    with i e show "wins_at sq i m" unfolding wins_at_def by simp
  next
    assume "wins_at sq i m"
    then obtain l where l: "l \<in> set LINES"
      and p: "case l of (a, b, c) \<Rightarrow> i \<in> {a, b, c} \<and> (\<forall>j \<in> {a, b, c}. at ?sq j = Some m)"
      unfolding wins_at_def by blast
    obtain a b c where abc: "l = (a, b, c)" by (cases l) auto
    from p abc have "line_complete ?sq (a, b, c)" by (simp add: line_complete_def)
    with l abc tm show "tryMove sq i m" by blast
  qed
qed

theorem calculateWinner_first_complete_line_witness:
  "line_complete [Some MX, None, Some MO, Some MX, Some MO, None, Some MX, None, None] (0, 3, 6)
   \<and> calculateWinner [Some MX, None, Some MO, Some MX, Some MO, None, Some MX, None, None]
       = \<lparr>winner = Some MX, line = [0, 3, 6]\<rparr>"
proof -
  let ?b = "[Some MX, None, Some MO, Some MX, Some MO, None, Some MX, None, None]"
  have h: "3 < length LINES \<and> LINES ! 3 = (0, 3, 6) \<and> line_complete ?b (0, 3, 6)
          \<and> (\<forall>j<3. \<not> line_complete ?b (LINES ! j))"
    by (simp add: LINES_def line_complete_def at_def less_Suc_eq numeral_3_eq_3)
  have "\<forall>k a b c. k < length LINES \<and> LINES ! k = (a, b, c) \<and> line_complete ?b (a, b, c)
          \<and> (\<forall>j<k. \<not> line_complete ?b (LINES ! j))
        \<longrightarrow> calculateWinner ?b = \<lparr>winner = at ?b a, line = [a, b, c]\<rparr> \<and> at ?b a \<noteq> None"
    using calculateWinner_first_complete_line[of ?b] by (elim conjE)
  then have "calculateWinner ?b = \<lparr>winner = at ?b 0, line = [0, 3, 6]\<rparr>"
    using h by blast
  then show ?thesis using h by (simp add: at_def)
qed

theorem computeAIMove_none_iff_full_witness:
  "computeAIMove [Some MX, None, None, None, None, None, None, None, None] MO MX 0 = Some 4
   \<and> [Some MX, None, None, None, None, None, None, None, None] ! 4 = None
   \<and> computeAIMove [Some MX, Some MO, Some MX, Some MX, Some MO, Some MO, Some MO, Some MX, Some MX] MO MX 0 = None"
proof -
  let ?b = "[Some MX, None, None, None, None, None, None, None, None]"
  let ?f = "[Some MX, Some MO, Some MX, Some MX, Some MO, Some MO, Some MO, Some MX, Some MX]"
  have m: "computeAIMove ?b MO MX 0 = Some 4" by code_simp
  have "None \<notin> set ?f" by simp
  then have n: "computeAIMove ?f MO MX 0 = None"
    using computeAIMove_none_iff_full[of ?f MO MX 0] by blast
  have "?b ! 4 = None"
    using computeAIMove_none_iff_full[of ?b MO MX 0] m by blast
  with m n show ?thesis by blast
qed

lemma wins_at_available: "wins_at sq i m \<Longrightarrow> i \<in> set (emptyIndices sq)"
  by (simp add: wins_at_def emptyIndices_set)

lemma find_tryMove_wins:
  assumes nw: "winner (calculateWinner sq) = None" and w: "wins_at sq i m"
  shows "\<exists>j. find (\<lambda>idx. tryMove sq idx m) (emptyIndices sq) = Some j \<and> wins_at sq j m"
proof -
  from w have "i \<in> set (emptyIndices sq)" by (rule wins_at_available)
  moreover from this w have "tryMove sq i m"
    using tryMove_iff_wins_at[OF nw, of i m] by (simp add: emptyIndices_set)
  ultimately have "find (\<lambda>idx. tryMove sq idx m) (emptyIndices sq) \<noteq> None"
    by (auto simp: find_None_iff)
  then obtain j where j: "find (\<lambda>idx. tryMove sq idx m) (emptyIndices sq) = Some j" by auto
  then have "j \<in> set (emptyIndices sq)" and "tryMove sq j m"
    by (auto simp: find_Some_iff)
  then have "wins_at sq j m"
    using tryMove_iff_wins_at[OF nw, of j m] by (simp add: emptyIndices_set)
  with j show ?thesis by blast
qed

lemma find_tryMove_none:
  assumes nw: "winner (calculateWinner sq) = None" and w: "\<forall>i. \<not> wins_at sq i m"
  shows "find (\<lambda>idx. tryMove sq idx m) (emptyIndices sq) = None"
proof -
  have "\<not> tryMove sq i m" if "i \<in> set (emptyIndices sq)" for i
    using tryMove_iff_wins_at[OF nw, of i m] that w by (simp add: emptyIndices_set)
  then show ?thesis by (simp add: find_None_iff)
qed

lemma example_board_move:
  "computeAIMove [Some MX, Some MX, None, Some MO, Some MO, None, None, None, None] MO MX r = Some 5"
proof -
  let ?b = "[Some MX, Some MX, None, Some MO, Some MO, None, None, None, None]"
  have "emptyIndices ?b \<noteq> []" by code_simp
  moreover have "find (\<lambda>idx. tryMove ?b idx MO) (emptyIndices ?b) = Some 5" by code_simp
  ultimately show ?thesis by (rule computeAIMove_win)
qed

text \<open>
  Claim C2, as amended. For every board on which no line is complete yet: if some empty square
  completes a line for the advisor's mark, \<open>computeAIMove\<close> returns such a square; if none does
  and some empty square completes a line for the opponent's mark, it returns such a square.
  For the board \<open>[X,X,_, O,O,_, _,_,_]\<close> with advisor \<open>O\<close> and opponent \<open>X\<close> it returns index 5.
\<close>

theorem computeAIMove_win_then_block:
  assumes "winner (calculateWinner sq) = None"
  shows "((\<exists>i. wins_at sq i ai)
            \<longrightarrow> (\<exists>j. computeAIMove sq ai hu r = Some j \<and> wins_at sq j ai))
       \<and> ((\<forall>i. \<not> wins_at sq i ai) \<and> (\<exists>i. wins_at sq i hu)
            \<longrightarrow> (\<exists>j. computeAIMove sq ai hu r = Some j \<and> wins_at sq j hu))
       \<and> computeAIMove [Some MX, Some MX, None, Some MO, Some MO, None, None, None, None]
            MO MX r = Some 5"
proof (intro conjI impI)
  assume "\<exists>i. wins_at sq i ai"
  then obtain i where i: "wins_at sq i ai" by blast
  then have ne: "emptyIndices sq \<noteq> []" using wins_at_available[of sq i ai] by auto
  from find_tryMove_wins[OF assms i] obtain j
    where j: "find (\<lambda>idx. tryMove sq idx ai) (emptyIndices sq) = Some j" "wins_at sq j ai"
    by blast
  from computeAIMove_win[OF ne j(1)] j(2)
  show "\<exists>j. computeAIMove sq ai hu r = Some j \<and> wins_at sq j ai" by blast
next
  assume h: "(\<forall>i. \<not> wins_at sq i ai) \<and> (\<exists>i. wins_at sq i hu)"
  then obtain i where i: "wins_at sq i hu" by blast
  then have ne: "emptyIndices sq \<noteq> []" using wins_at_available[of sq i hu] by auto
  from h have n1: "find (\<lambda>idx. tryMove sq idx ai) (emptyIndices sq) = None"
    using find_tryMove_none[OF assms, of ai] by blast
  from find_tryMove_wins[OF assms i] obtain j
    where j: "find (\<lambda>idx. tryMove sq idx hu) (emptyIndices sq) = Some j"
      "wins_at sq j hu"
    by blast
  from computeAIMove_block[OF ne n1 j(1)] j(2)
  show "\<exists>j. computeAIMove sq ai hu r = Some j \<and> wins_at sq j hu" by blast
next
  show "computeAIMove [Some MX, Some MX, None, Some MO, Some MO, None, None, None, None]
            MO MX r = Some 5"
    by (rule example_board_move)
qed

theorem computeAIMove_win_then_block_witness:
  "winner (calculateWinner [Some MX, Some MX, None, Some MO, Some MO, None, None, None, None]) = None
   \<and> wins_at [Some MX, Some MX, None, Some MO, Some MO, None, None, None, None] 5 MO
   \<and> (\<exists>j. computeAIMove [Some MX, Some MX, None, Some MO, Some MO, None, None, None, None]
             MO MX 0 = Some j
          \<and> wins_at [Some MX, Some MX, None, Some MO, Some MO, None, None, None, None] j MO)"
proof -
  let ?b = "[Some MX, Some MX, None, Some MO, Some MO, None, None, None, None]"
  have nw: "winner (calculateWinner ?b) = None" by code_simp
  have w: "wins_at ?b 5 MO" by code_simp
  from computeAIMove_win_then_block[OF nw, of MO MX 0] w
  have "\<exists>j. computeAIMove ?b MO MX 0 = Some j \<and> wins_at ?b j MO" by blast
  with nw w show ?thesis by blast
qed

text \<open>
  The claim as stated, for every board with an empty square, fails on a board that already
  holds a complete line: on \<open>[X,X,X, _,_,_, O,O,_]\<close> square 8 completes the bottom row for the
  advisor \<open>O\<close>, and \<open>computeAIMove\<close> returns square 3, which completes no line for \<open>O\<close>.
\<close>

theorem computeAIMove_win_counterexample:
  "emptyIndices [Some MX, Some MX, Some MX, None, None, None, Some MO, Some MO, None] \<noteq> []
   \<and> wins_at [Some MX, Some MX, Some MX, None, None, None, Some MO, Some MO, None] 8 MO
   \<and> computeAIMove [Some MX, Some MX, Some MX, None, None, None, Some MO, Some MO, None]
        MO MX 0 = Some 3
   \<and> \<not> wins_at [Some MX, Some MX, Some MX, None, None, None, Some MO, Some MO, None] 3 MO"
  by code_simp

lemma corners_set:
  "set (corners (emptyIndices sq)) = {c \<in> {0, 2, 6, 8}. empty_cell sq c}"
  by (auto simp: corners_def emptyIndices_set empty_cell_def)

lemma sides_set:
  "set (sides (emptyIndices sq)) = {s \<in> {1, 3, 5, 7}. empty_cell sq s}"
  by (auto simp: sides_def emptyIndices_set empty_cell_def)

lemma emptyIndices_sorted: "sorted (emptyIndices sq)"
  unfolding emptyIndices_def by (rule sorted_wrt_filter) simp

lemma emptyIndices_first:
  assumes "emptyIndices sq \<noteq> []"
  shows "empty_cell sq (emptyIndices sq ! 0) \<and> (\<forall>j < emptyIndices sq ! 0. \<not> empty_cell sq j)"
proof (intro conjI allI impI)
  from assms have "emptyIndices sq ! 0 \<in> set (emptyIndices sq)" by simp
  then show "empty_cell sq (emptyIndices sq ! 0)"
    by (simp add: emptyIndices_set empty_cell_def)
next
  fix j assume lt: "j < emptyIndices sq ! 0"
  show "\<not> empty_cell sq j"
  proof
    assume "empty_cell sq j"
    then have "j \<in> set (emptyIndices sq)" by (simp add: emptyIndices_set empty_cell_def)
    then obtain k where k: "k < length (emptyIndices sq)" "emptyIndices sq ! k = j"
      by (auto simp: in_set_conv_nth)
    have "emptyIndices sq ! 0 \<le> emptyIndices sq ! k"
      using emptyIndices_sorted[of sq] k(1) by (simp add: sorted_nth_mono)
    with k(2) lt show False by simp
  qed
qed

lemma pick_member: "xs \<noteq> [] \<Longrightarrow> set xs = S \<Longrightarrow> \<exists>c \<in> S. xs ! (r mod length xs) = c"
  using pick_in_set[of xs r] by auto

text \<open>
  What \<open>computeAIMove\<close> returns once its two loops have found nothing: no empty square
  passes \<open>tryMove\<close> for either mark, which on a board without a complete line means that no
  empty square completes a line for either mark.
\<close>

lemma computeAIMove_after_checks:
  assumes "None \<in> set sq"
    and "(\<forall>i \<in> set (emptyIndices sq). \<not> tryMove sq i ai \<and> \<not> tryMove sq i hu)
         \<or> (winner (calculateWinner sq) = None
              \<and> (\<forall>i. \<not> wins_at sq i ai \<and> \<not> wins_at sq i hu))"
  shows "(empty_cell sq 4 \<longrightarrow> computeAIMove sq ai hu r = Some 4)
       \<and> (\<not> empty_cell sq 4 \<and> (\<exists>c \<in> {0, 2, 6, 8}. empty_cell sq c)
            \<longrightarrow> (\<exists>c \<in> {0, 2, 6, 8}. empty_cell sq c
                  \<and> computeAIMove sq ai hu r = Some c))
       \<and> (\<not> empty_cell sq 4 \<and> (\<forall>c \<in> {0, 2, 6, 8}. \<not> empty_cell sq c)
              \<and> (\<exists>s \<in> {1, 3, 5, 7}. empty_cell sq s)
            \<longrightarrow> (\<exists>s \<in> {1, 3, 5, 7}. empty_cell sq s
                  \<and> computeAIMove sq ai hu r = Some s))
       \<and> (\<not> empty_cell sq 4 \<and> (\<forall>c \<in> {0, 2, 6, 8}. \<not> empty_cell sq c)
              \<and> (\<forall>s \<in> {1, 3, 5, 7}. \<not> empty_cell sq s)
            \<longrightarrow> (\<exists>k. computeAIMove sq ai hu r = Some k \<and> empty_cell sq k
                  \<and> (\<forall>j<k. \<not> empty_cell sq j)))"
proof -
  let ?av = "emptyIndices sq"
  have ne: "?av \<noteq> []" using assms(1) by (simp add: emptyIndices_Nil)
  have no: "\<not> tryMove sq i ai \<and> \<not> tryMove sq i hu" if i: "i \<in> set ?av" for i
    using assms(2)
  proof
    assume "\<forall>i \<in> set ?av. \<not> tryMove sq i ai \<and> \<not> tryMove sq i hu"
    with i show ?thesis by blast
  next
    assume h: "winner (calculateWinner sq) = None
        \<and> (\<forall>i. \<not> wins_at sq i ai \<and> \<not> wins_at sq i hu)"
    from i have "i < length sq" "sq ! i = None" by (simp_all add: emptyIndices_set)
    with h tryMove_iff_wins_at[of sq i ai] tryMove_iff_wins_at[of sq i hu]
    show ?thesis by blast
  qed
  have n1: "find (\<lambda>idx. tryMove sq idx ai) ?av = None"
    using no by (simp add: find_None_iff)
  have n2: "find (\<lambda>idx. tryMove sq idx hu) ?av = None"
    using no by (simp add: find_None_iff)
  note rest = computeAIMove_rest[OF ne n1 n2, of r]
  have c4: "4 \<in> set ?av \<longleftrightarrow> empty_cell sq 4"
    by (simp add: emptyIndices_set empty_cell_def)
  have cs: "corners ?av \<noteq> [] \<longleftrightarrow> (\<exists>c \<in> {0, 2, 6, 8}. empty_cell sq c)"
    using corners_set[of sq] by (metis (mono_tags, lifting) empty_iff mem_Collect_eq set_empty empty_Collect_eq)
  have ss: "sides ?av \<noteq> [] \<longleftrightarrow> (\<exists>s \<in> {1, 3, 5, 7}. empty_cell sq s)"
    using sides_set[of sq] by (metis (mono_tags, lifting) empty_iff mem_Collect_eq set_empty empty_Collect_eq)
  show ?thesis
  proof (intro conjI impI)
    assume "empty_cell sq 4"
    with rest c4 show "computeAIMove sq ai hu r = Some 4" by simp
  next
    assume h: "\<not> empty_cell sq 4 \<and> (\<exists>c \<in> {0, 2, 6, 8}. empty_cell sq c)"
    with cs have nec: "corners ?av \<noteq> []" by blast
    from pick_member[OF nec corners_set, of r]
    obtain c where c: "c \<in> {0, 2, 6, 8}" "empty_cell sq c"
      "corners ?av ! (r mod length (corners ?av)) = c" by blast
    from rest h c4 nec c(3) have "computeAIMove sq ai hu r = Some c" by simp
    with c show "\<exists>c \<in> {0, 2, 6, 8}. empty_cell sq c
                  \<and> computeAIMove sq ai hu r = Some c" by blast
  next
    assume h: "\<not> empty_cell sq 4 \<and> (\<forall>c \<in> {0, 2, 6, 8}. \<not> empty_cell sq c)
              \<and> (\<exists>s \<in> {1, 3, 5, 7}. empty_cell sq s)"
    with cs ss have nec: "corners ?av = []" and nes: "sides ?av \<noteq> []" by blast+
    from pick_member[OF nes sides_set, of r]
    obtain s where s: "s \<in> {1, 3, 5, 7}" "empty_cell sq s"
      "sides ?av ! (r mod length (sides ?av)) = s" by blast
    from rest h c4 nec nes s(3) have "computeAIMove sq ai hu r = Some s" by simp
    with s show "\<exists>s \<in> {1, 3, 5, 7}. empty_cell sq s
                  \<and> computeAIMove sq ai hu r = Some s" by blast
  next
    assume h: "\<not> empty_cell sq 4 \<and> (\<forall>c \<in> {0, 2, 6, 8}. \<not> empty_cell sq c)
              \<and> (\<forall>s \<in> {1, 3, 5, 7}. \<not> empty_cell sq s)"
    with cs ss have nec: "corners ?av = []" and nes: "sides ?av = []" by blast+
    from rest h c4 nec nes have "computeAIMove sq ai hu r = Some (?av ! 0)" by simp
    with emptyIndices_first[OF ne]
    show "\<exists>k. computeAIMove sq ai hu r = Some k \<and> empty_cell sq k
                  \<and> (\<forall>j<k. \<not> empty_cell sq j)" by blast
  qed
qed

lemma winning_cells_Nil: "winning_cells sq m = [] \<longleftrightarrow> (\<forall>i. \<not> wins_at sq i m)"
proof
  assume e: "winning_cells sq m = []"
  show "\<forall>i. \<not> wins_at sq i m"
  proof (intro allI notI)
    fix i assume w: "wins_at sq i m"
    then have "i \<in> set [0..<length sq]" by (simp add: wins_at_def)
    with w have "i \<in> set (winning_cells sq m)" by (simp add: winning_cells_def)
    with e show False by simp
  qed
next
  assume "\<forall>i. \<not> wins_at sq i m"
  then show "winning_cells sq m = []" by (simp add: winning_cells_def)
qed

text \<open>
  Claim C3, as amended. For every board on which no line is complete yet, with an empty
  square, on which no empty square completes a line for the advisor's mark or for the
  opponent's: \<open>computeAIMove\<close> returns the center 4 if it is empty; otherwise an empty corner
  among 0, 2, 6, 8 if there is one; otherwise an empty edge among 1, 3, 5, 7 if there is one;
  otherwise the first empty square in index order.
\<close>

theorem computeAIMove_center_corner_side:
  assumes "winner (calculateWinner sq) = None"
    and "None \<in> set sq"
    and "\<forall>i. \<not> wins_at sq i ai \<and> \<not> wins_at sq i hu"
  shows "(empty_cell sq 4 \<longrightarrow> computeAIMove sq ai hu r = Some 4)
       \<and> (\<not> empty_cell sq 4 \<and> (\<exists>c \<in> {0, 2, 6, 8}. empty_cell sq c)
            \<longrightarrow> (\<exists>c \<in> {0, 2, 6, 8}. empty_cell sq c
                  \<and> computeAIMove sq ai hu r = Some c))
       \<and> (\<not> empty_cell sq 4 \<and> (\<forall>c \<in> {0, 2, 6, 8}. \<not> empty_cell sq c)
              \<and> (\<exists>s \<in> {1, 3, 5, 7}. empty_cell sq s)
            \<longrightarrow> (\<exists>s \<in> {1, 3, 5, 7}. empty_cell sq s
                  \<and> computeAIMove sq ai hu r = Some s))
       \<and> (\<not> empty_cell sq 4 \<and> (\<forall>c \<in> {0, 2, 6, 8}. \<not> empty_cell sq c)
              \<and> (\<forall>s \<in> {1, 3, 5, 7}. \<not> empty_cell sq s)
            \<longrightarrow> (\<exists>k. computeAIMove sq ai hu r = Some k \<and> empty_cell sq k
                  \<and> (\<forall>j<k. \<not> empty_cell sq j)))"
proof -
  from assms(1,3)
  have "(\<forall>i \<in> set (emptyIndices sq). \<not> tryMove sq i ai \<and> \<not> tryMove sq i hu)
         \<or> (winner (calculateWinner sq) = None
              \<and> (\<forall>i. \<not> wins_at sq i ai \<and> \<not> wins_at sq i hu))"
    by blast
  with assms(2) show ?thesis by (rule computeAIMove_after_checks)
qed

theorem computeAIMove_center_corner_side_witness:
  "winner (calculateWinner [Some MX, None, None, None, None, None, None, None, None]) = None
   \<and> empty_cell [Some MX, None, None, None, None, None, None, None, None] 4
   \<and> computeAIMove [Some MX, None, None, None, None, None, None, None, None] MO MX 0 = Some 4
   \<and> \<not> empty_cell [None, None, None, None, Some MX, None, None, None, None] 4
   \<and> (\<exists>c \<in> {0, 2, 6, 8}. empty_cell [None, None, None, None, Some MX, None, None, None, None] c
        \<and> computeAIMove [None, None, None, None, Some MX, None, None, None, None] MO MX 1 = Some c)"
proof -
  let ?b = "[Some MX, None, None, None, None, None, None, None, None]"
  let ?c = "[None, None, None, None, Some MX, None, None, None, None]"
  have b0: "winner (calculateWinner ?b) = None" by code_simp
  have b1: "None \<in> set ?b" by simp
  have "winning_cells ?b MO = []" "winning_cells ?b MX = []" by code_simp+
  then have b2: "\<forall>i. \<not> wins_at ?b i MO \<and> \<not> wins_at ?b i MX"
    by (simp add: winning_cells_Nil)
  have b3: "empty_cell ?b 4" by (simp add: empty_cell_def)
  have c0: "winner (calculateWinner ?c) = None" by code_simp
  have c1: "None \<in> set ?c" by simp
  have "winning_cells ?c MO = []" "winning_cells ?c MX = []" by code_simp+
  then have c2: "\<forall>i. \<not> wins_at ?c i MO \<and> \<not> wins_at ?c i MX"
    by (simp add: winning_cells_Nil)
  have c3: "\<not> empty_cell ?c 4" by (simp add: empty_cell_def)
  have c4: "\<exists>c \<in> {0, 2, 6, 8}. empty_cell ?c c" by (simp add: empty_cell_def)
  from computeAIMove_center_corner_side[OF b0 b1 b2, of 0] b3
  have rb: "computeAIMove ?b MO MX 0 = Some 4" by blast
  from computeAIMove_center_corner_side[OF c0 c1 c2, of 1] c3 c4
  have rc: "\<exists>c \<in> {0, 2, 6, 8}. empty_cell ?c c \<and> computeAIMove ?c MO MX 1 = Some c" by blast
  from b0 b3 rb c3 rc show ?thesis by blast
qed

text \<open>
  The claim as stated, for every board with an empty square, fails on a board that already
  holds a complete line: on \<open>[X,X,X, _,O,_, O,_,_]\<close> with advisor \<open>O\<close> no empty square completes
  a line for either mark, the center is taken and corner 8 is empty, and \<open>computeAIMove\<close>
  returns the edge 3 (its second loop accepts the first empty square, the evaluator finding
  the top row of \<open>X\<close>).
\<close>

theorem computeAIMove_center_counterexample:
  "emptyIndices [Some MX, Some MX, Some MX, None, Some MO, None, Some MO, None, None] \<noteq> []
   \<and> winning_cells [Some MX, Some MX, Some MX, None, Some MO, None, Some MO, None, None] MO = []
   \<and> winning_cells [Some MX, Some MX, Some MX, None, Some MO, None, Some MO, None, None] MX = []
   \<and> \<not> empty_cell [Some MX, Some MX, Some MX, None, Some MO, None, Some MO, None, None] 4
   \<and> empty_cell [Some MX, Some MX, Some MX, None, Some MO, None, Some MO, None, None] 8
   \<and> computeAIMove [Some MX, Some MX, Some MX, None, Some MO, None, Some MO, None, None]
        MO MX 0 = Some 3
   \<and> (3::nat) \<notin> {0, 2, 6, 8}"
  by code_simp

lemma computeAIMove_tier_agrees:
  "computeAIMove sq ai hu r =
     (case computeAIMove_tier sq ai hu of
        None \<Rightarrow> None
      | Some Win \<Rightarrow> find (\<lambda>idx. tryMove sq idx ai) (emptyIndices sq)
      | Some Block \<Rightarrow> find (\<lambda>idx. tryMove sq idx hu) (emptyIndices sq)
      | Some Center \<Rightarrow> Some 4
      | Some Corner \<Rightarrow>
          Some (corners (emptyIndices sq) ! (r mod length (corners (emptyIndices sq))))
      | Some Side \<Rightarrow>
          Some (sides (emptyIndices sq) ! (r mod length (sides (emptyIndices sq))))
      | Some Fallback \<Rightarrow> Some (emptyIndices sq ! 0))"
  by (simp add: computeAIMove_def computeAIMove_tier_def Let_def split: option.splits)

lemma below_nine:
  "i < (9::nat) \<Longrightarrow> i = 4 \<or> i \<in> {0, 2, 6, 8} \<or> i \<in> {1, 3, 5, 7}"
  by auto

lemma nine_cells_covered:
  assumes len: "length sq = 9" and ne: "emptyIndices sq \<noteq> []"
  shows "4 \<in> set (emptyIndices sq) \<or> corners (emptyIndices sq) \<noteq> []
         \<or> sides (emptyIndices sq) \<noteq> []"
proof -
  from ne obtain i where i: "i \<in> set (emptyIndices sq)" by (cases "emptyIndices sq") auto
  then have "i < 9" using len by (simp add: emptyIndices_set)
  from below_nine[OF this] show ?thesis
  proof (elim disjE)
    assume "i = 4" with i show ?thesis by simp
  next
    assume "i \<in> {0, 2, 6, 8}"
    with i have "i \<in> set (corners (emptyIndices sq))" by (auto simp: corners_def)
    then show ?thesis by auto
  next
    assume "i \<in> {1, 3, 5, 7}"
    with i have "i \<in> set (sides (emptyIndices sq))" by (auto simp: sides_def)
    then show ?thesis by auto
  qed
qed

lemma fallback_on_longer_board:
  "computeAIMove_tier
     [Some MX, Some MO, Some MX, Some MX, Some MO, Some MO, Some MO, Some MX, Some MX, None]
     MO MX = Some Fallback"
  by code_simp

text \<open>
  Claim C10. On a board of 9 squares the last \<open>return\<close> of \<open>computeAIMove\<close>, the first
  available square, is never taken: \<open>computeAIMove_tier\<close>, which names the \<open>return\<close> statement
  that \<open>computeAIMove\<close> takes, is never \<open>Fallback\<close>, because with an empty square the center is
  available or an empty corner or an empty edge exists; the result then comes from one of
  the five tiers before it.
\<close>

theorem computeAIMove_fallback_unreachable:
  assumes "length sq = 9"
  shows "computeAIMove_tier sq ai hu \<noteq> Some Fallback
       \<and> (None \<in> set sq \<longrightarrow>
            (4 \<in> set (emptyIndices sq) \<or> corners (emptyIndices sq) \<noteq> []
              \<or> sides (emptyIndices sq) \<noteq> [])
            \<and> computeAIMove_tier sq ai hu
                \<in> {Some Win, Some Block, Some Center, Some Corner, Some Side})"
proof (intro conjI impI)
  show nf: "computeAIMove_tier sq ai hu \<noteq> Some Fallback"
  proof (cases "emptyIndices sq = []")
    case True
    then show ?thesis by (simp add: computeAIMove_tier_def)
  next
    case False
    from nine_cells_covered[OF assms False] False show ?thesis
      by (auto simp: computeAIMove_tier_def Let_def split: option.splits)
  qed
  assume e: "None \<in> set sq"
  then have ne: "emptyIndices sq \<noteq> []" by (simp add: emptyIndices_Nil)
  from nine_cells_covered[OF assms ne]
  show "4 \<in> set (emptyIndices sq) \<or> corners (emptyIndices sq) \<noteq> []
              \<or> sides (emptyIndices sq) \<noteq> []" .
  from ne have "computeAIMove_tier sq ai hu \<noteq> None"
    by (auto simp: computeAIMove_tier_def Let_def split: option.splits)
  with nf show "computeAIMove_tier sq ai hu
                \<in> {Some Win, Some Block, Some Center, Some Corner, Some Side}"
    by (cases "computeAIMove_tier sq ai hu") (auto intro: tier.exhaust)
qed

theorem computeAIMove_fallback_unreachable_witness:
  "length [Some MX, Some MO, Some MX, Some MX, Some MO, Some MO, Some MO, Some MX, None] = 9
   \<and> computeAIMove_tier
        [Some MX, Some MO, Some MX, Some MX, Some MO, Some MO, Some MO, Some MX, None] MO MX
      \<noteq> Some Fallback
   \<and> computeAIMove_tier
        [Some MX, Some MO, Some MX, Some MX, Some MO, Some MO, Some MO, Some MX, None] MO MX
      = Some Corner"
proof -
  let ?b = "[Some MX, Some MO, Some MX, Some MX, Some MO, Some MO, Some MO, Some MX, None]"
  have l: "length ?b = 9" by simp
  have t: "computeAIMove_tier ?b MO MX = Some Corner" by code_simp
  from computeAIMove_fallback_unreachable[OF l, of MO MX] l t show ?thesis by blast
qed

section \<open>Properties of the controller\<close>

lemma statusEffect_frame:
  "board (statusEffect s) = board s" "xIsNext (statusEffect s) = xIsNext s"
  "mode (statusEffect s) = mode s"
  by (simp_all add: statusEffect_def split: option.splits)

lemma statusEffect_derived:
  "boardWinner (statusEffect s) = boardWinner s" "movesLeft (statusEffect s) = movesLeft s"
  "currentPlayer (statusEffect s) = currentPlayer s"
  by (simp_all add: boardWinner_def movesLeft_def currentPlayer_def statusEffect_frame)

lemma render_sess: "sess (render nb prev s t) = runStatusEffect prev s"
  by (simp add: render_def Let_def)

lemma movesLeft_zero: "movesLeft s = 0 \<longleftrightarrow> None \<notin> set (board s)"
  by (simp add: movesLeft_def emptyIndices_Nil)

lemma handleClick_rejected:
  assumes "\<not> gameActive s \<or> boardWinner s \<noteq> None \<or> at (board s) i \<noteq> None
           \<or> (mode s = HUMAN_AI \<and> \<not> xIsNext s)"
  shows "handleClick i s = s"
  using assms by (auto simp: handleClick_def canPlay_def)

lemma handleClick_accepted:
  assumes "canPlay s" "at (board s) i = None" "\<not> (mode s = HUMAN_AI \<and> \<not> xIsNext s)"
  shows "handleClick i s
         = s\<lparr>board := set_at (board s) i (Some (currentPlayer s)), xIsNext := \<not> xIsNext s\<rparr>"
  using assms by (auto simp: handleClick_def)

lemma flipped_deps:
  "xIsNext s' = (\<not> xIsNext s) \<Longrightarrow> statusDeps s' \<noteq> statusDeps s"
  by (auto simp: statusDeps_def currentPlayer_def)

lemma add_win_exact:
  "score_of w (add_win w sc) = score_of w sc + 1"
  "score_of (other w) (add_win w sc) = score_of (other w) sc"
  "draws (add_win w sc) = draws sc"
  by (cases w; simp add: add_win_def score_of_def other_def)+

text \<open>
  Claim C5. When a click on a square is accepted (the round can be played, the square is
  empty, and it is not the advisor's turn in the mode against the advisor), the state after
  the click and the status effect that follows it has the square set to the mark that was
  active and the active mark flipped; if the new board has a winner, that mark's counter is one
  higher (the other two counters are as before), the round is inactive and the status is
  \<open>Winner: \<close> and the mark; else if the new board is full, the draws counter is one higher
  (the others as before), the round is inactive and the status is \<open>Draw!\<close>; else the round
  stays active, the scores are as before and the status is \<open>Turn: \<close> and the new active mark.
\<close>

theorem click_accepted_transition:
  assumes "i < length (board (sess a))" and "canPlay (sess a)"
    and "at (board (sess a)) i = None"
    and "\<not> (mode (sess a) = HUMAN_AI \<and> \<not> xIsNext (sess a))"
  shows "board (sess (dispatch (Click i) a)) = (board (sess a))[i := Some (currentPlayer (sess a))]
       \<and> xIsNext (sess (dispatch (Click i) a)) = (\<not> xIsNext (sess a))
       \<and> currentPlayer (sess (dispatch (Click i) a)) = other (currentPlayer (sess a))
       \<and> mode (sess (dispatch (Click i) a)) = mode (sess a)
       \<and> (\<forall>w. boardWinner (sess (dispatch (Click i) a)) = Some w \<longrightarrow>
             score_of w (scores (sess (dispatch (Click i) a))) = score_of w (scores (sess a)) + 1
             \<and> score_of (other w) (scores (sess (dispatch (Click i) a)))
                 = score_of (other w) (scores (sess a))
             \<and> draws (scores (sess (dispatch (Click i) a))) = draws (scores (sess a))
             \<and> \<not> gameActive (sess (dispatch (Click i) a))
             \<and> statusMessage (sess (dispatch (Click i) a)) = ''Winner: '' @ mark_name w)
       \<and> (boardWinner (sess (dispatch (Click i) a)) = None
            \<and> None \<notin> set (board (sess (dispatch (Click i) a))) \<longrightarrow>
             draws (scores (sess (dispatch (Click i) a))) = draws (scores (sess a)) + 1
             \<and> score_X (scores (sess (dispatch (Click i) a))) = score_X (scores (sess a))
             \<and> score_O (scores (sess (dispatch (Click i) a))) = score_O (scores (sess a))
             \<and> \<not> gameActive (sess (dispatch (Click i) a))
             \<and> statusMessage (sess (dispatch (Click i) a)) = ''Draw!'')
       \<and> (boardWinner (sess (dispatch (Click i) a)) = None
            \<and> None \<in> set (board (sess (dispatch (Click i) a))) \<longrightarrow>
             gameActive (sess (dispatch (Click i) a))
             \<and> scores (sess (dispatch (Click i) a)) = scores (sess a)
             \<and> statusMessage (sess (dispatch (Click i) a))
                 = ''Turn: '' @ mark_name (currentPlayer (sess (dispatch (Click i) a))))"
proof -
  let ?s = "sess a"
  let ?h = "?s\<lparr>board := (board ?s)[i := Some (currentPlayer ?s)], xIsNext := \<not> xIsNext ?s\<rparr>"
  have h: "handleClick i ?s = ?h"
    using handleClick_accepted[OF assms(2,3,4)] assms(1) by (simp add: set_at_inside)
  have ne: "?h \<noteq> ?s"
  proof
    assume "?h = ?s"
    then have "xIsNext ?h = xIsNext ?s" by simp
    then show False by simp
  qed
  have deps: "statusDeps ?h \<noteq> statusDeps ?s" by (rule flipped_deps) simp
  have d: "sess (dispatch (Click i) a) = statusEffect ?h"
    using assms(1) h ne deps by (simp add: dispatch_def render_sess runStatusEffect_def)
  have act: "gameActive ?h" using assms(2) by (simp add: canPlay_def)
  show ?thesis
    unfolding d
  proof (intro conjI allI impI)
    show "board (statusEffect ?h) = (board ?s)[i := Some (currentPlayer ?s)]"
      by (simp add: statusEffect_frame)
    show "xIsNext (statusEffect ?h) = (\<not> xIsNext ?s)"
      by (simp add: statusEffect_frame)
    show "currentPlayer (statusEffect ?h) = other (currentPlayer ?s)"
      by (simp add: statusEffect_derived) (simp add: currentPlayer_def other_def)
    show "mode (statusEffect ?h) = mode ?s"
      by (simp add: statusEffect_frame)
  next
    fix w assume "boardWinner (statusEffect ?h) = Some w"
    then have w: "boardWinner ?h = Some w" by (simp add: statusEffect_derived)
    then have e: "statusEffect ?h = ?h\<lparr>statusMessage := ''Winner: '' @ mark_name w,
        gameActive := False, scores := add_win w (scores ?h)\<rparr>"
      by (simp add: statusEffect_def)
    show "score_of w (scores (statusEffect ?h)) = score_of w (scores ?s) + 1"
      by (simp add: e add_win_exact)
    show "score_of (other w) (scores (statusEffect ?h)) = score_of (other w) (scores ?s)"
      by (simp add: e add_win_exact)
    show "draws (scores (statusEffect ?h)) = draws (scores ?s)"
      by (simp add: e add_win_exact)
    show "\<not> gameActive (statusEffect ?h)" by (simp add: e)
    show "statusMessage (statusEffect ?h) = ''Winner: '' @ mark_name w" by (simp add: e)
  next
    assume "boardWinner (statusEffect ?h) = None \<and> None \<notin> set (board (statusEffect ?h))"
    then have "boardWinner ?h = None" "movesLeft ?h = 0"
      by (simp_all add: statusEffect_derived statusEffect_frame movesLeft_zero)
    then have e: "statusEffect ?h = ?h\<lparr>statusMessage := ''Draw!'', gameActive := False,
                 scores := (scores ?h)\<lparr>draws := draws (scores ?h) + 1\<rparr>\<rparr>"
      by (simp add: statusEffect_def)
    show "draws (scores (statusEffect ?h)) = draws (scores ?s) + 1" by (simp add: e)
    show "score_X (scores (statusEffect ?h)) = score_X (scores ?s)" by (simp add: e)
    show "score_O (scores (statusEffect ?h)) = score_O (scores ?s)" by (simp add: e)
    show "\<not> gameActive (statusEffect ?h)" by (simp add: e)
    show "statusMessage (statusEffect ?h) = ''Draw!''" by (simp add: e)
  next
    assume "boardWinner (statusEffect ?h) = None \<and> None \<in> set (board (statusEffect ?h))"
    then have "boardWinner ?h = None" "movesLeft ?h \<noteq> 0"
      by (simp_all add: statusEffect_derived statusEffect_frame movesLeft_zero)
    then have e: "statusEffect ?h = ?h\<lparr>statusMessage := ''Turn: '' @ mark_name (currentPlayer ?h)\<rparr>"
      by (simp add: statusEffect_def)
    show "gameActive (statusEffect ?h)" using act by (simp add: e)
    show "scores (statusEffect ?h) = scores ?s" by (simp add: e)
    show "statusMessage (statusEffect ?h) = ''Turn: '' @ mark_name (currentPlayer (statusEffect ?h))"
      by (simp add: statusEffect_derived) (simp add: e)
  qed
qed

text \<open>
  Claim C6. A click is a no-op whenever the round is over (the round-active flag is off, or
  the board has a winner), or the square is occupied, or the mode is against the advisor and it
  is the advisor's turn: \<open>handleClick\<close> returns the state it was given, and the component,
  its pending timer included, is as before. \<open>handleClick\<close> has no failing branch.
\<close>

theorem click_rejected_noop:
  assumes "\<not> gameActive (sess a) \<or> boardWinner (sess a) \<noteq> None
           \<or> at (board (sess a)) i \<noteq> None
           \<or> (mode (sess a) = HUMAN_AI \<and> \<not> xIsNext (sess a))"
  shows "handleClick i (sess a) = sess a \<and> dispatch (Click i) a = a"
  using handleClick_rejected[OF assms] by (simp add: dispatch_def)

lemma empty_board_facts:
  "winner (calculateWinner (replicate 9 None)) = None"
  "length (emptyIndices (replicate 9 None)) = 9"
  by code_simp+

lemma restartGame_fields:
  "board (restartGame hard s) = replicate 9 None" "xIsNext (restartGame hard s)"
  "gameActive (restartGame hard s)" "mode (restartGame hard s) = mode s"
  "scores (restartGame False s) = scores s"
  "scores (restartGame True s) = \<lparr>score_X = 0, score_O = 0, draws = 0\<rparr>"
  by (simp_all add: restartGame_def)

lemma statusEffect_playing:
  assumes "boardWinner s = None" "movesLeft s \<noteq> 0"
  shows "statusEffect s = s\<lparr>statusMessage := ''Turn: '' @ mark_name (currentPlayer s)\<rparr>"
  using assms by (simp add: statusEffect_def)

lemma runStatusEffect_fresh_board:
  assumes "board s = replicate 9 None"
  shows "board (runStatusEffect prev s) = board s" "xIsNext (runStatusEffect prev s) = xIsNext s"
    "gameActive (runStatusEffect prev s) = gameActive s" "scores (runStatusEffect prev s) = scores s"
    "mode (runStatusEffect prev s) = mode s"
proof -
  have "boardWinner s = None" "movesLeft s \<noteq> 0"
    using assms by (simp_all add: boardWinner_def movesLeft_def empty_board_facts)
  from statusEffect_playing[OF this]
  show "board (runStatusEffect prev s) = board s" "xIsNext (runStatusEffect prev s) = xIsNext s"
    "gameActive (runStatusEffect prev s) = gameActive s" "scores (runStatusEffect prev s) = scores s"
    "mode (runStatusEffect prev s) = mode s"
    by (simp_all add: runStatusEffect_def)
qed

text \<open>
  Claim C8. From every state, Restart Round (\<open>restartGame\<close> with \<open>hard = false\<close>) and the
  render after it give a state whose board is nine empty squares, whose active mark is \<open>X\<close>
  and whose round is active, with the three score counters as they were before.
\<close>

theorem restart_round_keeps_scores:
  "board (sess (dispatch (Restart False) a)) = replicate 9 None
   \<and> set (board (sess (dispatch (Restart False) a))) = {None}
   \<and> currentPlayer (sess (dispatch (Restart False) a)) = MX
   \<and> gameActive (sess (dispatch (Restart False) a))
   \<and> score_X (scores (sess (dispatch (Restart False) a))) = score_X (scores (sess a))
   \<and> score_O (scores (sess (dispatch (Restart False) a))) = score_O (scores (sess a))
   \<and> draws (scores (sess (dispatch (Restart False) a))) = draws (scores (sess a))
   \<and> restartGame False (sess a)
       = (sess a)\<lparr>board := replicate 9 None, xIsNext := True, gameActive := True,
                  statusMessage := ''New round. Turn: X''\<rparr>"
proof -
  let ?r = "restartGame False (sess a)"
  have d: "sess (dispatch (Restart False) a) = runStatusEffect (sess a) ?r"
    by (simp add: dispatch_def render_sess)
  have b: "board ?r = replicate 9 None" by (simp add: restartGame_fields)
  note f = runStatusEffect_fresh_board[OF b, of "sess a"]
  show ?thesis
    unfolding d
    by (simp add: f restartGame_fields currentPlayer_def) (simp add: restartGame_def)
qed

theorem click_accepted_transition_witness:
  "board (sess (dispatch (Click 2) two_in_a_row))
     = [Some MX, Some MX, Some MX, Some MO, Some MO, None, None, None, None]
   \<and> \<not> xIsNext (sess (dispatch (Click 2) two_in_a_row))
   \<and> score_X (scores (sess (dispatch (Click 2) two_in_a_row))) = 2
   \<and> score_O (scores (sess (dispatch (Click 2) two_in_a_row))) = 2
   \<and> draws (scores (sess (dispatch (Click 2) two_in_a_row))) = 3
   \<and> \<not> gameActive (sess (dispatch (Click 2) two_in_a_row))
   \<and> statusMessage (sess (dispatch (Click 2) two_in_a_row)) = ''Winner: X''"
proof -
  let ?a = two_in_a_row
  have h1: "2 < length (board (sess ?a))" by (simp add: two_in_a_row_def)
  have h2: "canPlay (sess ?a)" by code_simp
  have h3: "at (board (sess ?a)) 2 = None" by code_simp
  have h4: "\<not> (mode (sess ?a) = HUMAN_AI \<and> \<not> xIsNext (sess ?a))"
    by (simp add: two_in_a_row_def)
  have w: "boardWinner (sess (dispatch (Click 2) ?a)) = Some MX" by code_simp
  note t = click_accepted_transition[OF h1 h2 h3 h4]
  from t have b: "board (sess (dispatch (Click 2) ?a))
      = (board (sess ?a))[2 := Some (currentPlayer (sess ?a))]" by blast
  from t have x: "xIsNext (sess (dispatch (Click 2) ?a)) = (\<not> xIsNext (sess ?a))" by blast
  from t w have s: "score_of MX (scores (sess (dispatch (Click 2) ?a)))
        = score_of MX (scores (sess ?a)) + 1
      \<and> score_of (other MX) (scores (sess (dispatch (Click 2) ?a)))
        = score_of (other MX) (scores (sess ?a))
      \<and> draws (scores (sess (dispatch (Click 2) ?a))) = draws (scores (sess ?a))
      \<and> \<not> gameActive (sess (dispatch (Click 2) ?a))
      \<and> statusMessage (sess (dispatch (Click 2) ?a)) = ''Winner: '' @ mark_name MX"
    by blast
  from b have "board (sess (dispatch (Click 2) ?a))
     = [Some MX, Some MX, Some MX, Some MO, Some MO, None, None, None, None]"
    by (simp add: two_in_a_row_def currentPlayer_def)
  moreover from x have "\<not> xIsNext (sess (dispatch (Click 2) ?a))"
    by (simp add: two_in_a_row_def)
  moreover from s have "score_X (scores (sess (dispatch (Click 2) ?a))) = 2"
    "score_O (scores (sess (dispatch (Click 2) ?a))) = 2"
    "draws (scores (sess (dispatch (Click 2) ?a))) = 3"
    "\<not> gameActive (sess (dispatch (Click 2) ?a))"
    "statusMessage (sess (dispatch (Click 2) ?a)) = ''Winner: X''"
    by (simp_all add: score_of_def other_def mark_name_def two_in_a_row_def)
  ultimately show ?thesis by blast
qed

theorem click_rejected_noop_witness:
  "at (board (sess two_in_a_row)) 0 \<noteq> None
   \<and> handleClick 0 (sess two_in_a_row) = sess two_in_a_row
   \<and> dispatch (Click 0) two_in_a_row = two_in_a_row"
proof -
  have h: "at (board (sess two_in_a_row)) 0 \<noteq> None"
    by (simp add: two_in_a_row_def at_def)
  then have "\<not> gameActive (sess two_in_a_row) \<or> boardWinner (sess two_in_a_row) \<noteq> None
           \<or> at (board (sess two_in_a_row)) 0 \<noteq> None
           \<or> (mode (sess two_in_a_row) = HUMAN_AI \<and> \<not> xIsNext (sess two_in_a_row))"
    by blast
  from click_rejected_noop[OF this] h show ?thesis by blast
qed

theorem restart_round_keeps_scores_witness:
  "board (sess (dispatch (Restart False) two_in_a_row)) = replicate 9 None
   \<and> gameActive (sess (dispatch (Restart False) two_in_a_row))
   \<and> score_X (scores (sess (dispatch (Restart False) two_in_a_row))) = 1
   \<and> score_O (scores (sess (dispatch (Restart False) two_in_a_row))) = 2
   \<and> draws (scores (sess (dispatch (Restart False) two_in_a_row))) = 3"
  using restart_round_keeps_scores[of two_in_a_row]
  by (simp add: two_in_a_row_def)

lemma statusEffect_flag: "gameActive s \<Longrightarrow> round_flag_ok (statusEffect s)"
  by (auto simp: round_flag_ok_def statusEffect_def boardWinner_def movesLeft_def
      emptyIndices_Nil split: option.splits)

lemma aiArmed_deps: "aiDeps s = aiDeps s' \<Longrightarrow> aiArmed s = aiArmed s'"
  by (simp add: aiDeps_def aiArmed_def)

lemma runStatusEffect_board: "board (runStatusEffect prev s) = board s"
  by (simp add: runStatusEffect_def statusEffect_frame)

lemma render_timer_current: "timer_current (render True prev s t)"
proof -
  let ?s1 = "runStatusEffect prev s"
  let ?t1 = "if aiArmed s then Some (board s) else None"
  have t1: "runAiEffect True prev s t = ?t1" by (simp add: runAiEffect_def)
  have b: "board ?s1 = board s" by (rule runStatusEffect_board)
  show ?thesis
  proof (cases "aiDeps ?s1 = aiDeps s")
    case True
    then have "aiArmed ?s1 = aiArmed s" by (rule aiArmed_deps)
    with True b show ?thesis
      by (simp add: timer_current_def render_def Let_def t1 runAiEffect_def)
  next
    case False
    with b show ?thesis
      by (simp add: timer_current_def render_def Let_def t1 runAiEffect_def)
  qed
qed

lemma dispatch_timer_current: "timer_current a \<Longrightarrow> timer_current (dispatch e a)"
proof (cases e)
  case (Click i)
  assume "timer_current a"
  then show ?thesis using Click render_timer_current by (simp add: dispatch_def)
next
  case (Timeout r)
  assume tc: "timer_current a"
  show ?thesis
  proof (cases "timer a")
    case None
    with tc Timeout show ?thesis by (simp add: dispatch_def)
  next
    case b: (Some b)
    show ?thesis
    proof (cases "aiTimeout b r (sess a)")
      case None
      with b Timeout show ?thesis by (simp add: dispatch_def timer_current_def)
    next
      case (Some s')
      with b Timeout show ?thesis by (simp add: dispatch_def render_timer_current)
    qed
  qed
next
  case (Restart hard)
  then show ?thesis using render_timer_current by (simp add: dispatch_def)
next
  case (ModeChange m)
  then show ?thesis using render_timer_current by (simp add: dispatch_def)
qed

lemma run_timer_current: "timer_current a \<Longrightarrow> timer_current (run es a)"
  by (induction es arbitrary: a) (simp_all add: dispatch_timer_current)

lemma aiTimeout_Some:
  assumes "aiTimeout b r s = Some s'"
  shows "\<exists>idx. computeAIMove b aiMark MX r = Some idx \<and> idx < length b \<and> b ! idx = None
           \<and> s' = s\<lparr>board := b[idx := Some aiMark], xIsNext := True\<rparr>"
  using assms by (auto simp: aiTimeout_def set_at_inside split: option.splits if_splits)

lemma reset_timer:
  assumes "is_reset e"
  shows "timer (dispatch e a) = None" "board (sess (dispatch e a)) = replicate 9 None"
    "xIsNext (sess (dispatch e a))" "gameActive (sess (dispatch e a))"
proof -
  obtain s where d: "dispatch e a = render True (sess a) s (timer a)"
    and b: "board s = replicate 9 None" and x: "xIsNext s" and g: "gameActive s"
    using assms
    by (cases e) (simp_all add: is_reset_def dispatch_def handleModeChange_def restartGame_fields)
  note f = runStatusEffect_fresh_board[OF b, of "sess a"]
  show "board (sess (dispatch e a)) = replicate 9 None" by (simp add: d render_sess f b)
  show x': "xIsNext (sess (dispatch e a))" by (simp add: d render_sess f x)
  show "gameActive (sess (dispatch e a))" by (simp add: d render_sess f g)
  have "timer_current (dispatch e a)" unfolding d by (rule render_timer_current)
  with x' show "timer (dispatch e a) = None"
    by (cases "timer (dispatch e a)") (simp_all add: timer_current_def aiArmed_def)
qed

lemma timeout_on_current:
  assumes "timer_current a"
  shows "sess (dispatch (Timeout r) a) = sess a
       \<or> (\<exists>idx. computeAIMove (board (sess a)) aiMark MX r = Some idx
             \<and> board (sess a) ! idx = None
             \<and> board (sess (dispatch (Timeout r) a)) = (board (sess a))[idx := Some MO])"
proof (cases "timer a")
  case None
  then show ?thesis by (simp add: dispatch_def)
next
  case (Some b)
  with assms have b: "b = board (sess a)" by (simp add: timer_current_def)
  show ?thesis
  proof (cases "aiTimeout b r (sess a)")
    case None
    with Some show ?thesis by (simp add: dispatch_def)
  next
    case s': (Some s')
    from aiTimeout_Some[OF s'] obtain idx where
      i: "computeAIMove b aiMark MX r = Some idx" "b ! idx = None"
      "s' = (sess a)\<lparr>board := b[idx := Some aiMark], xIsNext := True\<rparr>" by blast
    have "board (sess (dispatch (Timeout r) a)) = board s'"
      using Some s' by (simp add: dispatch_def render_sess runStatusEffect_board)
    with i b show ?thesis by (auto simp: aiMark_def)
  qed
qed

text \<open>
  Claim C9. A reset (Restart Round, New Game or a mode button) from any state, in particular
  one with an advisor's move pending, leaves no pending timer: the cleanup of the advisor's
  effect has cleared it. The board is nine empty squares, a timer firing then changes
  nothing, and in every state reached from there a timer that fires either changes nothing
  or places \<open>O\<close> on the square the advisor chooses for the board of that moment, an empty
  square of it: no move computed before the reset is applied.
\<close>

theorem reset_cancels_pending_move:
  assumes "is_reset e"
  shows "timer (dispatch e a) = None
       \<and> board (sess (dispatch e a)) = replicate 9 None
       \<and> dispatch (Timeout r) (dispatch e a) = dispatch e a
       \<and> (\<forall>es r'. sess (dispatch (Timeout r') (run es (dispatch e a)))
                     = sess (run es (dispatch e a))
              \<or> (\<exists>idx. computeAIMove (board (sess (run es (dispatch e a)))) aiMark MX r'
                          = Some idx
                    \<and> board (sess (run es (dispatch e a))) ! idx = None
                    \<and> board (sess (dispatch (Timeout r') (run es (dispatch e a))))
                        = (board (sess (run es (dispatch e a))))[idx := Some MO]))"
proof (intro conjI allI)
  show n: "timer (dispatch e a) = None" by (rule reset_timer[OF assms])
  show "board (sess (dispatch e a)) = replicate 9 None" by (rule reset_timer[OF assms])
  from n show "dispatch (Timeout r) (dispatch e a) = dispatch e a" by (simp add: dispatch_def)
  fix es r'
  from n have "timer_current (dispatch e a)" by (simp add: timer_current_def)
  then have "timer_current (run es (dispatch e a))" by (rule run_timer_current)
  then show "sess (dispatch (Timeout r') (run es (dispatch e a)))
                     = sess (run es (dispatch e a))
              \<or> (\<exists>idx. computeAIMove (board (sess (run es (dispatch e a)))) aiMark MX r'
                          = Some idx
                    \<and> board (sess (run es (dispatch e a))) ! idx = None
                    \<and> board (sess (dispatch (Timeout r') (run es (dispatch e a))))
                        = (board (sess (run es (dispatch e a))))[idx := Some MO])"
    by (rule timeout_on_current)
qed

theorem reset_cancels_pending_move_witness:
  "is_reset (Restart False)
   \<and> timer pending_move = Some [Some MX, None, None, None, None, None, None, None, None]
   \<and> timer (dispatch (Restart False) pending_move) = None
   \<and> board (sess (dispatch (Restart False) pending_move)) = replicate 9 None
   \<and> dispatch (Timeout 0) (dispatch (Restart False) pending_move)
       = dispatch (Restart False) pending_move"
proof -
  have r: "is_reset (Restart False)" by (simp add: is_reset_def)
  have p: "timer pending_move = Some [Some MX, None, None, None, None, None, None, None, None]"
    by code_simp
  from reset_cancels_pending_move[OF r, of pending_move 0] r p show ?thesis by blast
qed

lemma handleClick_cases:
  "handleClick i s = s
   \<or> (canPlay s \<and> handleClick i s
        = s\<lparr>board := set_at (board s) i (Some (currentPlayer s)), xIsNext := \<not> xIsNext s\<rparr>)"
  by (simp add: handleClick_def)

lemma mount_inv: "app_inv mount"
proof -
  have i: "boardWinner initial = None" "movesLeft initial \<noteq> 0" "gameActive initial"
    "board initial = replicate 9 None" "\<not> aiArmed initial"
    by (simp_all add: initial_def boardWinner_def movesLeft_def empty_board_facts aiArmed_def)
  have s: "sess mount = statusEffect initial" by (simp add: mount_def Let_def)
  have t: "timer mount = runAiEffect False initial (statusEffect initial) None"
    using i(5) by (simp add: mount_def Let_def)
  have g: "gameActive (statusEffect initial)"
    using statusEffect_playing[OF i(1,2)] i(3) by simp
  have "aiDeps (statusEffect initial) = aiDeps initial"
    using g i(3) by (simp add: aiDeps_def statusEffect_frame statusEffect_derived)
  with t have "timer mount = None" by (simp add: runAiEffect_def)
  then have "timer_current mount" by (simp add: timer_current_def)
  moreover have "round_flag_ok (sess mount)" unfolding s using i(3) by (rule statusEffect_flag)
  moreover have "length (board (sess mount)) = 9" by (simp add: s statusEffect_frame i(4))
  ultimately show ?thesis by (simp add: app_inv_def)
qed

lemma render_inv:
  assumes "gameActive s" "length (board s) = 9" "statusDeps s \<noteq> statusDeps prev"
  shows "app_inv (render True prev s t)"
proof -
  have "sess (render True prev s t) = statusEffect s"
    using assms(3) by (simp add: render_sess runStatusEffect_def)
  then show ?thesis
    using statusEffect_flag[OF assms(1)] assms(2) render_timer_current[of prev s t]
    by (simp add: app_inv_def statusEffect_frame)
qed

lemma reset_inv: "is_reset e \<Longrightarrow> app_inv (dispatch e a)"
proof -
  assume r: "is_reset e"
  note f = reset_timer[OF r, of a]
  have "round_flag_ok (sess (dispatch e a))"
    using f(2,4) by (simp add: round_flag_ok_def boardWinner_def empty_board_facts)
  moreover have "timer_current (dispatch e a)" using f(1) by (simp add: timer_current_def)
  moreover have "length (board (sess (dispatch e a))) = 9" using f(2) by simp
  ultimately show ?thesis by (simp add: app_inv_def)
qed

lemma dispatch_inv:
  assumes inv: "app_inv a"
  shows "app_inv (dispatch e a)"
proof (cases e)
  case (Click i)
  show ?thesis
  proof (cases "i < length (board (sess a)) \<and> handleClick i (sess a) \<noteq> sess a")
    case False
    with Click inv show ?thesis by (auto simp: dispatch_def)
  next
    case True
    let ?s = "sess a"
    let ?h = "?s\<lparr>board := set_at (board ?s) i (Some (currentPlayer ?s)), xIsNext := \<not> xIsNext ?s\<rparr>"
    from True handleClick_cases[of i ?s]
    have cp: "canPlay ?s" and h: "handleClick i ?s = ?h" by auto
    have g: "gameActive ?h" using cp by (simp add: canPlay_def)
    have l: "length (board ?h) = 9" using True inv by (simp add: app_inv_def set_at_inside)
    have d: "statusDeps ?h \<noteq> statusDeps ?s" by (rule flipped_deps) simp
    from render_inv[OF g l d] True Click h show ?thesis by (simp add: dispatch_def)
  qed
next
  case (Timeout r)
  show ?thesis
  proof (cases "timer a")
    case None
    with Timeout inv show ?thesis by (simp add: dispatch_def)
  next
    case b: (Some b)
    with inv have bb: "b = board (sess a)" and arm: "aiArmed (sess a)"
      by (simp_all add: app_inv_def timer_current_def)
    show ?thesis
    proof (cases "aiTimeout b r (sess a)")
      case None
      with b Timeout inv show ?thesis
        by (simp add: dispatch_def app_inv_def timer_current_def)
    next
      case (Some s')
      from aiTimeout_Some[OF Some] obtain idx where
        s': "s' = (sess a)\<lparr>board := b[idx := Some aiMark], xIsNext := True\<rparr>" by blast
      have g: "gameActive s'" using arm by (simp add: s' aiArmed_def)
      have l: "length (board s') = 9" using inv bb by (simp add: s' app_inv_def)
      have "xIsNext s' = (\<not> xIsNext (sess a))" using arm by (simp add: s' aiArmed_def)
      then have d: "statusDeps s' \<noteq> statusDeps (sess a)" by (rule flipped_deps)
      from render_inv[OF g l d] b Some Timeout show ?thesis by (simp add: dispatch_def)
    qed
  qed
next
  case (Restart hard)
  then show ?thesis using reset_inv[of e a] by (simp add: is_reset_def)
next
  case (ModeChange m)
  then show ?thesis using reset_inv[of e a] by (simp add: is_reset_def)
qed

lemma run_inv: "app_inv a \<Longrightarrow> app_inv (run es a)"
  by (induction es arbitrary: a) (simp_all add: dispatch_inv)

lemma reachable_board_length: "length (board (sess (run es mount))) = 9"
  using run_inv[OF mount_inv, of es] by (simp add: app_inv_def)

text \<open>
  Claim C7. In every state the component reaches from its first render by clicks, timer
  firings, restarts and mode changes (each taken with the renders and effects that follow
  it), the round-active flag is off exactly when a line of the board is complete or the board
  has no empty square.
\<close>

theorem round_inactive_iff_over:
  "(\<not> gameActive (sess (run es mount)))
     \<longleftrightarrow> ((\<exists>l \<in> set LINES. line_complete (board (sess (run es mount))) l)
           \<or> None \<notin> set (board (sess (run es mount))))"
proof -
  have "round_flag_ok (sess (run es mount))"
    using run_inv[OF mount_inv, of es] by (simp add: app_inv_def)
  moreover have "boardWinner (sess (run es mount)) \<noteq> None
      \<longleftrightarrow> (\<exists>l \<in> set LINES. line_complete (board (sess (run es mount))) l)"
    unfolding boardWinner_def calculateWinner_def by (rule winner_iff_complete)
  ultimately show ?thesis unfolding round_flag_ok_def by blast
qed

theorem round_inactive_iff_over_witness:
  "\<not> gameActive (sess (run [Click 0, Click 3, Click 1, Click 4, Click 2] mount))
   \<and> line_complete (board (sess (run [Click 0, Click 3, Click 1, Click 4, Click 2] mount)))
        (0, 1, 2)
   \<and> gameActive (sess (run [Click 0, Click 3] mount))"
proof -
  have c: "line_complete (board (sess (run [Click 0, Click 3, Click 1, Click 4, Click 2] mount)))
        (0, 1, 2)" by code_simp
  have "(0, 1, 2) \<in> set LINES" by (simp add: LINES_def)
  with c have "\<exists>l \<in> set LINES.
      line_complete (board (sess (run [Click 0, Click 3, Click 1, Click 4, Click 2] mount))) l"
    by blast
  with round_inactive_iff_over[of "[Click 0, Click 3, Click 1, Click 4, Click 2]"]
  have "\<not> gameActive (sess (run [Click 0, Click 3, Click 1, Click 4, Click 2] mount))"
    by blast
  moreover have "gameActive (sess (run [Click 0, Click 3] mount))" by code_simp
  ultimately show ?thesis using c by blast
qed

end
